theory Spec2Isabelle
  imports Main "HOL-Library.Sublist" "HOL-Library.AList"
begin

section \<open>Python string operations used by the storage class\<close>

text \<open>
  Blob names, keys and prefixes are Python \<^verbatim>\<open>str\<close> values, modelled as \<^typ>\<open>string\<close>.
  \<^verbatim>\<open>s.startswith(p)\<close> is the prefix test; the argument order of the source is kept.
\<close>

definition startswith :: "string \<Rightarrow> string \<Rightarrow> bool" where
  "startswith s p = prefix p s"

text \<open>
  \<^verbatim>\<open>s.replace(old, new, 1)\<close>: the leftmost occurrence of \<open>old\<close> is replaced, the rest of
  the string is kept. An empty \<open>old\<close> occurs at position 0.
\<close>

fun replace_first :: "string \<Rightarrow> string \<Rightarrow> string \<Rightarrow> string" where
  "replace_first old new [] = (if old = [] then new else [])"
| "replace_first old new (c # cs) =
     (if prefix old (c # cs) then new @ drop (length old) (c # cs)
      else c # replace_first old new cs)"

text \<open>\<^verbatim>\<open>s.split(sep)\<close> for a one-character separator: never returns the empty list.\<close>

fun split_sep :: "char \<Rightarrow> string \<Rightarrow> string list" where
  "split_sep sep [] = [[]]"
| "split_sep sep (c # cs) =
     (if c = sep then [] # split_sep sep cs
      else (case split_sep sep cs of
              [] \<Rightarrow> [[c]]
            | w # ws \<Rightarrow> (c # w) # ws))"

text \<open>\<^verbatim>\<open>sep.join(parts)\<close>.\<close>

fun join_sep :: "string \<Rightarrow> string list \<Rightarrow> string" where
  "join_sep sep [] = []"
| "join_sep sep [p] = p"
| "join_sep sep (p # q # ps) = p @ sep @ join_sep sep (q # ps)"

section \<open>pathlib: pure POSIX paths\<close>

text \<open>
  \<^verbatim>\<open>_keyname\<close> computes \<^verbatim>\<open>str(Path(self._path_prefix) / key)\<close>. On a POSIX host
  \<^verbatim>\<open>Path\<close> is a \<^verbatim>\<open>PurePosixPath\<close> as far as joining and printing go: a path is a root
  (\<open>''''\<close>, \<open>''/''\<close> or \<open>''//''\<close>) and the list of its components; the drive is always empty.
\<close>

record pure_path =
  root :: string
  parts :: "string list"

text \<open>
  \<^verbatim>\<open>splitroot\<close>: exactly two leading slashes give the root \<open>''//''\<close>, one or more than two
  give \<open>''/''\<close>; the rest has its leading slashes stripped.
\<close>

definition splitroot :: "string \<Rightarrow> string \<times> string" where
  "splitroot part =
     (if part \<noteq> [] \<and> hd part = CHR ''/'' then
        (let stripped_part = dropWhile (\<lambda>c. c = CHR ''/'') part
         in if length part - length stripped_part = 2 then (''//'', stripped_part)
            else (''/'', stripped_part))
      else ('''', part))"

text \<open>
  \<^verbatim>\<open>parse_parts\<close> on one segment: empty components and \<open>''.''\<close> components are dropped,
  \<open>''..''\<close> is kept.
\<close>

definition parse_parts :: "string \<Rightarrow> pure_path" where
  "parse_parts part =
     (case splitroot part of
        (rt, rel) \<Rightarrow>
          \<lparr>root = rt, parts = filter (\<lambda>x. x \<noteq> [] \<and> x \<noteq> ''.'') (split_sep CHR ''/'' rel)\<rparr>)"

text \<open>
  \<^verbatim>\<open>join_parsed_parts\<close>, the \<open>/\<close> operator: a second path with a root replaces the first,
  otherwise its components are appended.
\<close>

definition join_parsed_parts :: "pure_path \<Rightarrow> pure_path \<Rightarrow> pure_path" where
  "join_parsed_parts p1 p2 =
     (if root p2 \<noteq> [] then p2
      else \<lparr>root = root p1, parts = parts p1 @ parts p2\<rparr>)"

text \<open>\<^verbatim>\<open>__str__\<close>: root, then the components joined by \<open>/\<close>; the empty path prints as \<open>''.''\<close>.\<close>

definition path_str :: "pure_path \<Rightarrow> string" where
  "path_str p =
     (let s = root p @ join_sep ''/'' (parts p)
      in if s = [] then ''.'' else s)"

section \<open>The namespace and its key addressing\<close>

record namespace =
  connection_string :: string
  bucket_name :: string
  path_prefix :: string
  encoding :: string

text \<open>\<^verbatim>\<open>_keyname(key) = str(Path(self._path_prefix) / key)\<close>.\<close>

definition keyname :: "namespace \<Rightarrow> string \<Rightarrow> string" where
  "keyname self key = path_str (join_parsed_parts (parse_parts (path_prefix self)) (parse_parts key))"

text \<open>
  \<^verbatim>\<open>blobname\<close>, the closure inside \<^verbatim>\<open>find\<close>: the first occurrence of the prefix is
  removed when the name starts with it, then one leading slash is removed.
\<close>

definition blobname :: "namespace \<Rightarrow> string \<Rightarrow> string" where
  "blobname self blob_name =
     (let n1 = (if startswith blob_name (path_prefix self)
                then replace_first (path_prefix self) '''' blob_name else blob_name);
          n2 = (if startswith n1 ''/'' then drop 1 n1 else n1)
      in n2)"

section \<open>Errors\<close>

text \<open>The exceptions the code can raise or meet, as values.\<close>

datatype error =
    ValueError
  | KeyError string
  | TypeError
  | LookupError string
  | UnicodeDecodeError
  | UnicodeEncodeError
  | NotFound string
  | ServiceUnavailable

text \<open>\<^verbatim>\<open>x or default\<close> on an optional string: \<^verbatim>\<open>None\<close> and the empty string are falsy.\<close>

definition or_default :: "string option \<Rightarrow> string \<Rightarrow> string" where
  "or_default x d = (case x of None \<Rightarrow> d | Some s \<Rightarrow> if s = [] then d else s)"

text \<open>
  \<^verbatim>\<open>__init__\<close>: a missing connection string is refused; the encoding defaults to
  \<open>''utf-8''\<close> and the prefix to the empty string. The client construction and
  \<^verbatim>\<open>create_container\<close> act on the backend only and are left out.
\<close>

definition init :: "string option \<Rightarrow> string \<Rightarrow> string option \<Rightarrow> string option \<Rightarrow> error + namespace" where
  "init conn bucket enc pfx =
     (if or_default conn [] = [] then Inl ValueError
      else Inr \<lparr>connection_string = or_default conn [],
                bucket_name = bucket,
                path_prefix = or_default pfx [],
                encoding = or_default enc ''utf-8''\<rparr>)"

section \<open>Patterns and the field filter\<close>

text \<open>
  \<^verbatim>\<open>match.groupdict()\<close> maps every named group of the pattern to the captured string, or to
  \<^verbatim>\<open>None\<close> for a group that took no part in the match. A compiled pattern is modelled by
  its \<^verbatim>\<open>match\<close> method (anchored at the start of the string): \<open>None\<close> for no match,
  otherwise the group dictionary. A value of the field filter is modelled by the test
  \<^verbatim>\<open>re.match(value, s) is not None\<close>.
\<close>

type_synonym groupdict = "(string \<times> string option) list"
type_synonym compiled_pattern = "string \<Rightarrow> groupdict option"
type_synonym file_filter = "(string \<times> (string \<Rightarrow> bool)) list"

text \<open>
  \<^verbatim>\<open>all(re.match(value, item[key]) for key, value in file_filter.items())\<close>: the pairs are
  visited in the dictionary's order and the first pair that does not match ends the
  iteration. \<^verbatim>\<open>item[key]\<close> raises \<^verbatim>\<open>KeyError\<close> for an absent field, and
  \<^verbatim>\<open>re.match\<close> raises \<^verbatim>\<open>TypeError\<close> on \<^verbatim>\<open>None\<close>.
\<close>

fun all_match :: "file_filter \<Rightarrow> groupdict \<Rightarrow> error + bool" where
  "all_match [] item = Inr True"
| "all_match ((key, val) # rest) item =
     (case map_of item key of
        None \<Rightarrow> Inl (KeyError key)
      | Some None \<Rightarrow> Inl TypeError
      | Some (Some s) \<Rightarrow> if val s then all_match rest item else Inr False)"

definition item_filter :: "file_filter option \<Rightarrow> groupdict \<Rightarrow> error + bool" where
  "item_filter file_filter item =
     (case file_filter of
        None \<Rightarrow> Inr True
      | Some ff \<Rightarrow> all_match ff item)"

subsection \<open>A fragment of Python's regular expressions\<close>

text \<open>
  Enough of \<^verbatim>\<open>re\<close> to write the patterns of the examples: literals, \<^verbatim>\<open>\d\<close> (on the
  ASCII digits), sequence, alternation, named groups \<^verbatim>\<open>(?P<name>...)\<close> and \<^verbatim>\<open>$\<close>, which
  matches at the end of the string and before a final newline. The matcher returns every way
  the pattern can match a prefix of the input, in the order a backtracking matcher tries
  them, as the rest of the input and the groups captured so far.
\<close>

datatype regex =
    Eps
  | Lit char
  | Digit
  | Cat regex regex
  | Alt regex regex
  | Named string regex
  | EndOfString

fun rx :: "regex \<Rightarrow> string \<times> (string \<rightharpoonup> string) \<Rightarrow> (string \<times> (string \<rightharpoonup> string)) list" where
  "rx Eps (s, g) = [(s, g)]"
| "rx (Lit c) (s, g) = (case s of [] \<Rightarrow> [] | x # xs \<Rightarrow> if x = c then [(xs, g)] else [])"
| "rx Digit (s, g) =
     (case s of [] \<Rightarrow> [] | x # xs \<Rightarrow> if x \<in> set ''0123456789'' then [(xs, g)] else [])"
| "rx (Cat a b) (s, g) = concat (map (rx b) (rx a (s, g)))"
| "rx (Alt a b) (s, g) = rx a (s, g) @ rx b (s, g)"
| "rx (Named n r) (s, g) =
     map (\<lambda>(s', g'). (s', g'(n \<mapsto> take (length s - length s') s))) (rx r (s, g))"
| "rx EndOfString (s, g) = (if s = [] \<or> s = [CHR 0x0A] then [(s, g)] else [])"

fun group_names :: "regex \<Rightarrow> string list" where
  "group_names (Cat a b) = group_names a @ group_names b"
| "group_names (Alt a b) = group_names a @ group_names b"
| "group_names (Named n r) = n # group_names r"
| "group_names _ = []"

text \<open>\<^verbatim>\<open>re.compile(r).match\<close>: the first way to match, and its \<^verbatim>\<open>groupdict()\<close>.\<close>

definition re_match :: "regex \<Rightarrow> compiled_pattern" where
  "re_match r s =
     (case rx r (s, Map.empty) of
        [] \<Rightarrow> None
      | (rest, g) # _ \<Rightarrow> Some (map (\<lambda>n. (n, g n)) (group_names r)))"

text \<open>A literal string, and \<^verbatim>\<open>r{n}\<close>.\<close>

fun lits :: "string \<Rightarrow> regex" where
  "lits [] = Eps"
| "lits (c # cs) = Cat (Lit c) (lits cs)"

fun times :: "nat \<Rightarrow> regex \<Rightarrow> regex" where
  "times 0 r = Eps"
| "times (Suc n) r = Cat r (times n r)"

text \<open>\<^verbatim>\<open>(?P<year>\d{4})\.json$\<close> and \<^verbatim>\<open>out/(?P<year>\d{4})\.json$\<close>.\<close>

definition year_json :: regex where
  "year_json = Cat (Named ''year'' (times 4 Digit)) (Cat (lits ''.json'') EndOfString)"

definition out_year_json :: regex where
  "out_year_json = Cat (lits ''out/'') year_json"

section \<open>The object store\<close>

text \<open>
  The bucket the namespace works on, as the storage client shows it: the objects in
  listing order, each a name and its bytes, and whether the service answers. When it
  does not, every call raises. \<^verbatim>\<open>list_blobs(prefix=p)\<close> returns the objects whose name
  starts with \<open>p\<close>; reading or deleting an object that does not exist raises
  \<^verbatim>\<open>NotFound\<close>.
\<close>

type_synonym bytes = "char list"

record bucket =
  objects :: "(string \<times> bytes) list"
  reachable :: bool

definition list_blobs :: "bucket \<Rightarrow> string \<Rightarrow> error + string list" where
  "list_blobs b pfx =
     (if reachable b then Inr (filter (\<lambda>n. startswith n pfx) (map fst (objects b)))
      else Inl ServiceUnavailable)"

definition download_as_bytes :: "bucket \<Rightarrow> string \<Rightarrow> error + bytes" where
  "download_as_bytes b name =
     (if reachable b then
        (case map_of (objects b) name of
           None \<Rightarrow> Inl (NotFound name)
         | Some d \<Rightarrow> Inr d)
      else Inl ServiceUnavailable)"

definition upload_from_string :: "bucket \<Rightarrow> string \<Rightarrow> bytes \<Rightarrow> error + bucket" where
  "upload_from_string b name d =
     (if reachable b then Inr (b\<lparr>objects := AList.update name d (objects b)\<rparr>)
      else Inl ServiceUnavailable)"


definition blob_delete :: "bucket \<Rightarrow> string \<Rightarrow> error + bucket" where
  "blob_delete b name =
     (if reachable b then
        (case map_of (objects b) name of
           None \<Rightarrow> Inl (NotFound name)
         | Some d \<Rightarrow> Inr (b\<lparr>objects := AList.delete name (objects b)\<rparr>))
      else Inl ServiceUnavailable)"

section \<open>Progress reports\<close>

text \<open>\<^verbatim>\<open>str(n)\<close> for an integer, as the f-string of the description prints it.\<close>

fun digits :: "nat \<Rightarrow> string" where
  "digits n =
     (if n < 10 then [''0123456789'' ! n]
      else digits (n div 10) @ [''0123456789'' ! (n mod 10)])"

declare digits.simps [simp del]

definition str_int :: "int \<Rightarrow> string" where
  "str_int i = (if i < 0 then CHR ''-'' # digits (nat (- i)) else digits (nat i))"

record progress_status =
  total_items :: int
  completed_items :: int
  description :: string

definition create_progress_status :: "int \<Rightarrow> int \<Rightarrow> int \<Rightarrow> progress_status" where
  "create_progress_status num_loaded num_filtered num_total =
     \<lparr>total_items = num_total,
      completed_items = num_loaded + num_filtered,
      description = str_int num_loaded @ '' files loaded ('' @ str_int num_filtered @ '' filtered)''\<rparr>"

section \<open>find\<close>

text \<open>
  \<^verbatim>\<open>find\<close> is a generator. A run that is consumed to its end is modelled by the list of
  what it did, in order: the pairs it yielded, the calls of the progress callback and the
  log records, together with the exception that ended it, if any. A log record is an
  \<^verbatim>\<open>info\<close> record, the record of an exception, or the logging module's report that a
  record could not be formatted.
\<close>

datatype log_record = LogInfo | LogException error | LogFormatError

datatype event =
    Yield string groupdict
  | Report progress_status
  | Log log_record

text \<open>\<^verbatim>\<open>if progress is not None: progress(_create_progress_status(...))\<close>.\<close>

definition call_progress :: "bool \<Rightarrow> int \<Rightarrow> int \<Rightarrow> int \<Rightarrow> event list" where
  "call_progress progress num_loaded num_filtered num_total =
     (if progress then [Report (create_progress_status num_loaded num_filtered num_total)] else [])"

text \<open>
  The \<^verbatim>\<open>for blob in all_blobs\<close> loop, with its three counters. The \<^verbatim>\<open>break\<close> leaves the
  loop before the progress call of that iteration; an exception of \<^verbatim>\<open>item_filter\<close>
  leaves it at once.
\<close>

fun find_loop ::
  "namespace \<Rightarrow> compiled_pattern \<Rightarrow> string \<Rightarrow> bool \<Rightarrow> file_filter option \<Rightarrow> int \<Rightarrow>
   int \<Rightarrow> int \<Rightarrow> int \<Rightarrow> string list \<Rightarrow> event list \<times> error option" where
  "find_loop self file_pattern base_dir progress file_filter max_count
     num_total num_loaded num_filtered [] = ([], None)"
| "find_loop self file_pattern base_dir progress file_filter max_count
     num_total num_loaded num_filtered (blob # all_blobs) =
     (case file_pattern blob of
        Some grp \<Rightarrow>
          if startswith blob base_dir then
            (case item_filter file_filter grp of
               Inl e \<Rightarrow> ([], Some e)
             | Inr True \<Rightarrow>
                 if max_count > 0 \<and> num_loaded + 1 \<ge> max_count
                 then ([Yield (blobname self blob) grp], None)
                 else
                   (case find_loop self file_pattern base_dir progress file_filter max_count
                           num_total (num_loaded + 1) num_filtered all_blobs of
                      (tr, r) \<Rightarrow>
                        (Yield (blobname self blob) grp
                           # call_progress progress (num_loaded + 1) num_filtered num_total @ tr, r))
             | Inr False \<Rightarrow>
                 (case find_loop self file_pattern base_dir progress file_filter max_count
                         num_total num_loaded (num_filtered + 1) all_blobs of
                    (tr, r) \<Rightarrow>
                      (call_progress progress num_loaded (num_filtered + 1) num_total @ tr, r)))
          else
            (case find_loop self file_pattern base_dir progress file_filter max_count
                    num_total num_loaded (num_filtered + 1) all_blobs of
               (tr, r) \<Rightarrow>
                 (call_progress progress num_loaded (num_filtered + 1) num_total @ tr, r))
      | None \<Rightarrow>
          (case find_loop self file_pattern base_dir progress file_filter max_count
                  num_total num_loaded (num_filtered + 1) all_blobs of
             (tr, r) \<Rightarrow>
               (call_progress progress num_loaded (num_filtered + 1) num_total @ tr, r)))"

text \<open>
  The whole of \<^verbatim>\<open>find\<close>: \<^verbatim>\<open>base_dir or ""\<close>, the \<^verbatim>\<open>log.info\<close> call, the listing, the
  loop, and the handler that logs an exception and raises it again.
\<close>

definition find_blobs ::
  "namespace \<Rightarrow> compiled_pattern \<Rightarrow> string option \<Rightarrow> bool \<Rightarrow> file_filter option \<Rightarrow> int \<Rightarrow>
   bucket \<Rightarrow> event list \<times> error option" where
  "find_blobs self file_pattern base_dir progress file_filter max_count b =
     (let base = or_default base_dir []
      in case list_blobs b base of
           Inl e \<Rightarrow> ([Log LogInfo, Log (LogException e)], Some e)
         | Inr all_blobs \<Rightarrow>
             (case find_loop self file_pattern base progress file_filter max_count
                     (int (length all_blobs)) 0 0 all_blobs of
                (tr, None) \<Rightarrow> (Log LogInfo # tr, None)
              | (tr, Some e) \<Rightarrow> (Log LogInfo # tr @ [Log (LogException e)], Some e)))"

text \<open>What the caller receives from the iterator, and what the progress callback receives.\<close>

fun yielded :: "event list \<Rightarrow> (string \<times> groupdict) list" where
  "yielded [] = []"
| "yielded (Yield k g # es) = (k, g) # yielded es"
| "yielded (_ # es) = yielded es"

fun reports :: "event list \<Rightarrow> progress_status list" where
  "reports [] = []"
| "reports (Report p # es) = p # reports es"
| "reports (_ # es) = reports es"

text \<open>
  What one iteration of the loop decides for its candidate, from the two tests of the
  loop body: \<open>Inr True\<close> when the pair is yielded and \<open>num_loaded\<close> grows, \<open>Inr False\<close>
  when \<open>num_filtered\<close> grows, \<open>Inl e\<close> when \<^verbatim>\<open>item_filter\<close> raises \<open>e\<close>.
\<close>

definition decide :: "compiled_pattern \<Rightarrow> string \<Rightarrow> file_filter option \<Rightarrow> string \<Rightarrow> error + bool" where
  "decide file_pattern base_dir file_filter blob =
     (case file_pattern blob of
        Some grp \<Rightarrow> if startswith blob base_dir then item_filter file_filter grp else Inr False
      | None \<Rightarrow> Inr False)"

text \<open>The number of the candidates of a list whose pair is yielded.\<close>

definition loaded_among :: "compiled_pattern \<Rightarrow> string \<Rightarrow> file_filter option \<Rightarrow> string list \<Rightarrow> int" where
  "loaded_among file_pattern base_dir file_filter blobs =
     int (length (filter (\<lambda>blob. decide file_pattern base_dir file_filter blob = Inr True) blobs))"

text \<open>
  The loop runs through a list of candidates, and on to what follows the last of them,
  when \<^verbatim>\<open>item_filter\<close> raises on none of them and their yields do not reach a positive
  \<open>max_count\<close>.
\<close>

definition runs_through :: "compiled_pattern \<Rightarrow> string \<Rightarrow> file_filter option \<Rightarrow> int \<Rightarrow> string list \<Rightarrow> bool" where
  "runs_through file_pattern base_dir file_filter max_count blobs =
     (list_all (\<lambda>blob. \<not> isl (decide file_pattern base_dir file_filter blob)) blobs
      \<and> (max_count \<le> 0 \<or> loaded_among file_pattern base_dir file_filter blobs < max_count))"

section \<open>get, set, has, delete, clear\<close>

text \<open>
  A stored or returned value is \<^verbatim>\<open>bytes\<close> or \<^verbatim>\<open>str\<close>. The codec registry of Python is a
  parameter: \<open>decode coding d\<close> is \<^verbatim>\<open>d.decode(coding)\<close> and \<open>encode coding t\<close> is
  \<^verbatim>\<open>t.encode(coding)\<close>, each with the exception it may raise. The type of texts is left
  open.
\<close>

datatype 't data = Bytes bytes | Text 't

type_synonym 't decoder = "string \<Rightarrow> bytes \<Rightarrow> error + 't"
type_synonym 't encoder = "string \<Rightarrow> 't \<Rightarrow> error + bytes"

text \<open>The body of the \<^verbatim>\<open>try\<close> block of \<^verbatim>\<open>get\<close>.\<close>

definition get_try :: "'t decoder \<Rightarrow> namespace \<Rightarrow> string \<Rightarrow> bool \<Rightarrow> string option \<Rightarrow> bucket \<Rightarrow> error + 't data" where
  "get_try decode self key as_bytes enc b =
     (case download_as_bytes b (keyname self key) of
        Inl e \<Rightarrow> Inl e
      | Inr blob_data \<Rightarrow>
          if \<not> as_bytes then
            (let coding = or_default enc ''utf-8''
             in case decode coding blob_data of
                  Inl e \<Rightarrow> Inl e
                | Inr t \<Rightarrow> Inr (Text t))
          else Inr (Bytes blob_data))"

text \<open>
  \<^verbatim>\<open>get\<close>: an exception of the body is logged and \<^verbatim>\<open>None\<close> is returned. The result is the
  returned value and the log records written.
\<close>

definition get :: "'t decoder \<Rightarrow> namespace \<Rightarrow> string \<Rightarrow> bool \<Rightarrow> string option \<Rightarrow> bucket \<Rightarrow> 't data option \<times> log_record list" where
  "get decode self key as_bytes enc b =
     (case get_try decode self key as_bytes enc b of
        Inl e \<Rightarrow> (None, [LogException e])
      | Inr blob_data \<Rightarrow> (Some blob_data, []))"

text \<open>The body of the \<^verbatim>\<open>try\<close> block of \<^verbatim>\<open>set\<close>.\<close>

definition set_try :: "'t encoder \<Rightarrow> namespace \<Rightarrow> string \<Rightarrow> 't data \<Rightarrow> string option \<Rightarrow> bucket \<Rightarrow> error + bucket" where
  "set_try encode self key val enc b =
     (case val of
        Bytes d \<Rightarrow> upload_from_string b (keyname self key) d
      | Text t \<Rightarrow>
          (let coding = or_default enc ''utf-8''
           in case encode coding t of
                Inl e \<Rightarrow> Inl e
              | Inr d \<Rightarrow> upload_from_string b (keyname self key) d))"

text \<open>
  The handler of \<^verbatim>\<open>set\<close> calls \<^verbatim>\<open>log.exception("Error setting key %s: %s", key)\<close>: two
  placeholders and one argument, so the message of the record cannot be formatted and
  formatting it raises \<^verbatim>\<open>TypeError\<close>. What happens then is decided by the logging
  configuration, which is a parameter: the handlers of the standard library catch the
  error of formatting, report it on \<^verbatim>\<open>stderr\<close> and go on (\<open>Swallowing\<close>), so the record
  itself is never written; a handler or filter that lets the error through (\<open>Raising\<close>),
  as the capturing handlers of test runners do, makes \<^verbatim>\<open>log.exception\<close> raise. The calls
  in \<^verbatim>\<open>get\<close> and \<^verbatim>\<open>find\<close> have as many arguments as placeholders.
\<close>

datatype log_handler = Swallowing | Raising

text \<open>
  \<^verbatim>\<open>set\<close>: an exception of the body is caught and the logging call is made. The result is
  how the call ended (\<open>Inr ()\<close> for a normal return, \<open>Inl e\<close> for an exception that
  reaches the caller), the log records written and the bucket afterwards.
\<close>

definition set_value :: "'t encoder \<Rightarrow> log_handler \<Rightarrow> namespace \<Rightarrow> string \<Rightarrow> 't data \<Rightarrow> string option \<Rightarrow> bucket \<Rightarrow> (error + unit) \<times> log_record list \<times> bucket" where
  "set_value encode handler self key val enc b =
     (case set_try encode self key val enc b of
        Inl e \<Rightarrow>
          (case handler of
             Swallowing \<Rightarrow> (Inr (), [LogFormatError], b)
           | Raising \<Rightarrow> (Inl TypeError, [], b))
      | Inr b' \<Rightarrow> (Inr (), [], b'))"



text \<open>
  \<^verbatim>\<open>clear\<close>: the objects listed under the prefix are deleted one by one. The result is the
  exception that ended the call, if any, and the bucket afterwards.
\<close>

fun clear_loop :: "bucket \<Rightarrow> string list \<Rightarrow> error option \<times> bucket" where
  "clear_loop b [] = (None, b)"
| "clear_loop b (blob # blobs) =
     (case blob_delete b blob of
        Inl e \<Rightarrow> (Some e, b)
      | Inr b' \<Rightarrow> clear_loop b' blobs)"

definition clear :: "namespace \<Rightarrow> bucket \<Rightarrow> error option \<times> bucket" where
  "clear self b =
     (case list_blobs b (path_prefix self) of
        Inl e \<Rightarrow> (Some e, b)
      | Inr blobs \<Rightarrow> clear_loop b blobs)"

subsection \<open>Three codecs of Python\<close>

text \<open>
  For the examples: \<^verbatim>\<open>ascii\<close>, \<^verbatim>\<open>latin-1\<close> and \<^verbatim>\<open>utf-8\<close> decoding, with a text as the list
  of its code points. Any other name is an unknown encoding here.
\<close>

definition continuation :: "nat \<Rightarrow> bool" where
  "continuation b = (128 \<le> b \<and> b < 192)"

fun utf8_decode :: "nat list \<Rightarrow> nat list option" where
  "utf8_decode [] = Some []"
| "utf8_decode (b0 # bs) =
     (if b0 < 128 then map_option ((#) b0) (utf8_decode bs)
      else if 194 \<le> b0 \<and> b0 < 224 then
        (case bs of
           b1 # r \<Rightarrow>
             if continuation b1
             then map_option ((#) ((b0 - 192) * 64 + (b1 - 128))) (utf8_decode r)
             else None
         | _ \<Rightarrow> None)
      else if 224 \<le> b0 \<and> b0 < 240 then
        (case bs of
           b1 # b2 # r \<Rightarrow>
             if continuation b1 \<and> continuation b2
                \<and> (if b0 = 224 then 160 \<le> b1 else True)
                \<and> (if b0 = 237 then b1 < 160 else True)
             then map_option ((#) ((b0 - 224) * 4096 + (b1 - 128) * 64 + (b2 - 128))) (utf8_decode r)
             else None
         | _ \<Rightarrow> None)
      else if 240 \<le> b0 \<and> b0 < 245 then
        (case bs of
           b1 # b2 # b3 # r \<Rightarrow>
             if continuation b1 \<and> continuation b2 \<and> continuation b3
                \<and> (if b0 = 240 then 144 \<le> b1 else True)
                \<and> (if b0 = 244 then b1 < 144 else True)
             then map_option
                    ((#) ((b0 - 240) * 262144 + (b1 - 128) * 4096 + (b2 - 128) * 64 + (b3 - 128)))
                    (utf8_decode r)
             else None
         | _ \<Rightarrow> None)
      else None)"

definition py_decode :: "nat list decoder" where
  "py_decode coding d =
     (let ns = map of_char d
      in if coding = ''utf-8'' then
           (case utf8_decode ns of None \<Rightarrow> Inl UnicodeDecodeError | Some t \<Rightarrow> Inr t)
         else if coding = ''latin-1'' then Inr ns
         else if coding = ''ascii'' then
           (if list_all (\<lambda>n. n < 128) ns then Inr ns else Inl UnicodeDecodeError)
         else Inl (LookupError coding))"

definition utf8_encode :: "nat \<Rightarrow> nat list option" where
  "utf8_encode cp =
     (if cp < 128 then Some [cp]
      else if cp < 2048 then Some [192 + cp div 64, 128 + cp mod 64]
      else if cp < 65536 then
        (if 55296 \<le> cp \<and> cp < 57344 then None
         else Some [224 + cp div 4096, 128 + (cp div 64) mod 64, 128 + cp mod 64])
      else if cp < 1114112 then
        Some [240 + cp div 262144, 128 + (cp div 4096) mod 64, 128 + (cp div 64) mod 64,
              128 + cp mod 64]
      else None)"

definition py_encode :: "nat list encoder" where
  "py_encode coding t =
     (if coding = ''utf-8'' then
        (if list_all (\<lambda>cp. utf8_encode cp \<noteq> None) t
         then Inr (map char_of (concat (map (\<lambda>cp. the (utf8_encode cp)) t)))
         else Inl UnicodeEncodeError)
      else if coding = ''latin-1'' then
        (if list_all (\<lambda>cp. cp < 256) t then Inr (map char_of t) else Inl UnicodeEncodeError)
      else if coding = ''ascii'' then
        (if list_all (\<lambda>cp. cp < 128) t then Inr (map char_of t) else Inl UnicodeEncodeError)
      else Inl (LookupError coding))"

section \<open>Normal forms of keys and prefixes, and the namespace of the examples\<close>

text \<open>
  A key is a simple relative path when none of its components is empty or \<open>''.''\<close>: it is
  not empty, has no leading, trailing or doubled slash. A prefix is in normal form when
  it is empty or is printed back unchanged by \<^verbatim>\<open>str(Path(prefix))\<close> and is not \<open>''.''\<close>.
\<close>

definition normal_key :: "string \<Rightarrow> bool" where
  "normal_key k = list_all (\<lambda>x. x \<noteq> [] \<and> x \<noteq> ''.'') (split_sep CHR ''/'' k)"

definition normal_prefix :: "string \<Rightarrow> bool" where
  "normal_prefix p = (if p = [] then True else p \<noteq> ''.'' \<and> path_str (parse_parts p) = p)"

definition out_ns :: namespace where
  "out_ns = \<lparr>connection_string = ''key.json'', bucket_name = ''bucket'',
             path_prefix = ''out'', encoding = ''utf-8''\<rparr>"

text \<open>
  The candidate listing of the example, and \<^verbatim>\<open>re.match(value, s) is not None\<close> for a
  filter value written as a pattern of the fragment.
\<close>

definition out_bucket :: bucket where
  "out_bucket = \<lparr>objects = [(''out/2021.json'', ''a''), (''out/2022.json'', ''b''),
                            (''out/notes.txt'', ''c'')],
                 reachable = True\<rparr>"

definition matches :: "regex \<Rightarrow> string \<Rightarrow> bool" where
  "matches r s = (re_match r s \<noteq> None)"

section \<open>Key addressing\<close>

lemma split_sep_not_Nil: "split_sep c s \<noteq> []"
  by (induction s) (auto split: list.splits)

lemma join_split_sep: "join_sep [c] (split_sep c s) = s"
proof (induction s)
  case Nil
  then show ?case by simp
next
  case (Cons a s)
  obtain w ws where sp: "split_sep c s = w # ws"
    using split_sep_not_Nil [of c s] by (cases "split_sep c s") auto
  show ?case
  proof (cases "a = c")
    case True
    with Cons sp show ?thesis by simp
  next
    case False
    with Cons sp show ?thesis by (cases ws) auto
  qed
qed

lemma join_sep_append:
  "xs \<noteq> [] \<Longrightarrow> ys \<noteq> [] \<Longrightarrow> join_sep sep (xs @ ys) = join_sep sep xs @ sep @ join_sep sep ys"
proof (induction sep xs rule: join_sep.induct)
  case (1 sep)
  then show ?case by simp
next
  case (2 sep p)
  then show ?case by (cases ys) auto
next
  case (3 sep p q ps)
  then show ?case by simp
qed

lemma replace_first_prefix: "prefix p s \<Longrightarrow> replace_first p new s = new @ drop (length p) s"
  by (cases s) auto

lemma normal_key_nonempty: "normal_key k \<Longrightarrow> k \<noteq> []"
  by (auto simp: normal_key_def)

lemma normal_key_no_slash: "normal_key k \<Longrightarrow> hd k \<noteq> CHR ''/''"
  by (cases k) (auto simp: normal_key_def)

lemma parse_parts_normal_key:
  assumes "normal_key k"
  shows "parse_parts k = \<lparr>root = [], parts = split_sep CHR ''/'' k\<rparr>"
proof -
  have "splitroot k = ([], k)"
    using normal_key_no_slash [OF assms] by (simp add: splitroot_def)
  moreover have "filter (\<lambda>x. x \<noteq> [] \<and> x \<noteq> ''.'') (split_sep CHR ''/'' k) = split_sep CHR ''/'' k"
    using assms by (simp add: normal_key_def list_all_iff)
  ultimately show ?thesis by (simp add: parse_parts_def)
qed

lemma blobname_strip:
  assumes "k \<noteq> []" "hd k \<noteq> CHR ''/''"
  shows "blobname (self\<lparr>path_prefix := p\<rparr>) (p @ k) = k"
    and "blobname (self\<lparr>path_prefix := p\<rparr>) (p @ ''/'' @ k) = k"
  using assms by (cases k; simp add: blobname_def startswith_def replace_first_prefix Let_def)+

text \<open>
  C1, as amended. For a namespace whose prefix is in normal form and a key that is a
  simple relative path, translating the key to its address with \<^verbatim>\<open>_keyname\<close> and the
  address back with \<^verbatim>\<open>blobname\<close> returns the key unchanged.
\<close>

theorem keyname_blobname_roundtrip:
  assumes p: "normal_prefix (path_prefix self)" and k: "normal_key k"
  shows "blobname self (keyname self k) = k"
proof -
  define p where "p = path_prefix self"
  have self: "self = self\<lparr>path_prefix := p\<rparr>" by (simp add: p_def)
  have kne: "k \<noteq> []" and ksl: "hd k \<noteq> CHR ''/''"
    using k normal_key_nonempty normal_key_no_slash by auto
  have sne: "split_sep CHR ''/'' k \<noteq> []" by (rule split_sep_not_Nil)
  have jk: "join_sep ''/'' (split_sep CHR ''/'' k) = k" by (rule join_split_sep)
  let ?pp = "parse_parts p"
  have kn: "keyname self k = path_str \<lparr>root = root ?pp, parts = parts ?pp @ split_sep CHR ''/'' k\<rparr>"
    by (simp add: keyname_def parse_parts_normal_key [OF k] join_parsed_parts_def p_def)
  show ?thesis
  proof (cases "parts ?pp = []")
    case True
    have "p = [] \<or> p = root ?pp"
      using p True by (auto simp: normal_prefix_def p_def path_str_def Let_def split: if_splits)
    moreover have "p = [] \<Longrightarrow> root ?pp = []"
      by (simp add: parse_parts_def splitroot_def)
    ultimately have pr: "root ?pp = p" by auto
    have "keyname self k = p @ k"
      using kn True jk kne pr by (simp add: path_str_def Let_def)
    then show ?thesis
      using blobname_strip(1) [OF kne ksl, where self=self and p=p] self by simp
  next
    case False
    then have pne: "p \<noteq> []"
      by (auto simp: parse_parts_def splitroot_def)
    have pr: "p = root ?pp @ join_sep ''/'' (parts ?pp)"
      using p pne by (auto simp: normal_prefix_def p_def path_str_def Let_def split: if_splits)
    have "keyname self k = p @ ''/'' @ k"
      using kn False jk kne sne pr by (simp add: path_str_def Let_def join_sep_append)
    then show ?thesis
      using blobname_strip(2) [OF kne ksl, where self=self and p=p] self by simp
  qed
qed

lemmas path_eval =
  keyname_def blobname_def parse_parts_def splitroot_def join_parsed_parts_def path_str_def
  startswith_def normal_key_def normal_prefix_def out_ns_def Let_def

theorem keyname_blobname_roundtrip_witness:
  "normal_prefix (path_prefix out_ns) \<and> normal_key ''2021.json''
   \<and> blobname out_ns (keyname out_ns ''2021.json'') = ''2021.json''"
proof -
  have p: "normal_prefix (path_prefix out_ns)" by (simp add: path_eval)
  have k: "normal_key ''2021.json''" by (simp add: path_eval)
  show ?thesis using p k keyname_blobname_roundtrip [OF p k] by simp
qed

text \<open>
  The claim as stated fails on a key with a doubled slash: \<^verbatim>\<open>_keyname\<close> gives
  \<open>''out/a/b''\<close> and \<^verbatim>\<open>blobname\<close> gives back \<open>''a/b''\<close>.
\<close>

theorem keyname_blobname_roundtrip_counterexample:
  "blobname out_ns (keyname out_ns ''a//b'') \<noteq> ''a//b''"
  by (simp add: path_eval)











section \<open>find: truncation\<close>

lemma yielded_append: "yielded (xs @ ys) = yielded xs @ yielded ys"
  by (induction xs rule: yielded.induct) auto

lemma reports_append: "reports (xs @ ys) = reports xs @ reports ys"
  by (induction xs rule: reports.induct) auto

lemma yielded_call_progress: "yielded (call_progress pr a b c) = []"
  by (simp add: call_progress_def)

lemma reports_call_progress:
  "reports (call_progress pr a b c) = (if pr then [create_progress_status a b c] else [])"
  by (simp add: call_progress_def)

lemma yielded_loop_take:
  assumes "0 < n" "m \<le> 0" "nl < n"
  shows "yielded (fst (find_loop self fp base pr ff n nt nl nf blobs))
       = take (nat (n - nl)) (yielded (fst (find_loop self fp base pr ff m nt' nl' nf' blobs)))"
  using assms
proof (induction blobs arbitrary: nl nf nl' nf')
  case Nil
  then show ?case by simp
next
  case (Cons blob blobs)
  have skip: "yielded (fst (find_loop self fp base pr ff n nt nl (nf + 1) blobs))
       = take (nat (n - nl)) (yielded (fst (find_loop self fp base pr ff m nt' nl' (nf' + 1) blobs)))"
    using Cons.IH [of nl] Cons.prems by simp
  show ?case
  proof (cases "fp blob")
    case None
    then show ?thesis
      using skip by (simp add: split_beta yielded_append yielded_call_progress)
  next
    case (Some g)
    show ?thesis
    proof (cases "startswith blob base")
      case False
      then show ?thesis
        using Some skip by (simp add: split_beta yielded_append yielded_call_progress)
    next
      case True
      show ?thesis
      proof (cases "item_filter ff g")
        case (Inl e)
        then show ?thesis using Some True by simp
      next
        case (Inr ok)
        show ?thesis
        proof (cases ok)
          case False
          then show ?thesis
            using Some True Inr skip by (simp add: split_beta yielded_append yielded_call_progress)
        next
          case ok: True
          show ?thesis
          proof (cases "n \<le> nl + 1")
            case True
            with Cons.prems have "nat (n - nl) = Suc 0" by simp
            then show ?thesis
              using Some \<open>startswith blob base\<close> Inr ok True Cons.prems
              by (simp add: split_beta yielded_append yielded_call_progress)
          next
            case False
            then have lt: "nl + 1 < n" by simp
            have "nat (n - nl) = Suc (nat (n - (nl + 1)))" using lt by simp
            then show ?thesis
              using Some \<open>startswith blob base\<close> Inr ok False Cons.prems
                Cons.IH [of "nl + 1" nf "nl' + 1" nf', OF Cons.prems(1,2) lt]
              by (simp add: split_beta yielded_append yielded_call_progress)
          qed
        qed
      qed
    qed
  qed
qed

lemma find_blobs_listing_fails:
  "list_blobs b (or_default base_dir []) = Inl e \<Longrightarrow>
   find_blobs self fp base_dir pr ff mc b = ([Log LogInfo, Log (LogException e)], Some e)"
  by (simp add: find_blobs_def)

lemma find_blobs_listing:
  assumes "list_blobs b (or_default base_dir []) = Inr cands"
  shows "find_blobs self fp base_dir pr ff mc b =
     (let res = find_loop self fp (or_default base_dir []) pr ff mc (int (length cands)) 0 0 cands
      in (Log LogInfo # fst res @ (case snd res of None \<Rightarrow> [] | Some e \<Rightarrow> [Log (LogException e)]),
          snd res))"
  using assms by (simp add: find_blobs_def Let_def split_beta split: option.splits)

lemma yielded_find_blobs:
  "yielded (fst (find_blobs self fp base_dir pr ff mc b)) =
     (case list_blobs b (or_default base_dir []) of
        Inl e \<Rightarrow> []
      | Inr cands \<Rightarrow>
          yielded (fst (find_loop self fp (or_default base_dir []) pr ff mc (int (length cands)) 0 0 cands)))"
  by (cases "list_blobs b (or_default base_dir [])")
     (simp_all add: find_blobs_listing_fails find_blobs_listing Let_def yielded_append split: option.splits)

text \<open>
  C3. With \<open>max_count = n > 0\<close>, \<^verbatim>\<open>find\<close> yields at most \<open>n\<close> pairs, and they are the first
  \<open>n\<close> pairs of the run with a non-positive \<open>max_count\<close> on the same bucket, in the same
  order.
\<close>

theorem find_max_count_prefix:
  assumes "0 < n" "m \<le> 0"
  shows "yielded (fst (find_blobs self fp base_dir pr ff n b))
           = take (nat n) (yielded (fst (find_blobs self fp base_dir pr ff m b)))
       \<and> length (yielded (fst (find_blobs self fp base_dir pr ff n b))) \<le> nat n"
proof -
  have eq: "yielded (fst (find_blobs self fp base_dir pr ff n b))
           = take (nat n) (yielded (fst (find_blobs self fp base_dir pr ff m b)))"
  proof (cases "list_blobs b (or_default base_dir [])")
    case (Inl e)
    then show ?thesis by (simp add: yielded_find_blobs)
  next
    case (Inr cands)
    then show ?thesis
      using yielded_loop_take [OF assms, of 0] assms by (simp add: yielded_find_blobs)
  qed
  then show ?thesis by simp
qed


lemmas find_eval =
  find_blobs_def or_default_def list_blobs_def startswith_def re_match_def matches_def
  year_json_def out_year_json_def blobname_def item_filter_def call_progress_def
  create_progress_status_def str_int_def digits.simps eval_nat_numeral out_ns_def out_bucket_def

theorem find_max_count_prefix_witness:
  "(0::int) < 1 \<and> (- 1::int) \<le> 0
   \<and> yielded (fst (find_blobs out_ns (re_match out_year_json) None False None 1 out_bucket))
       = [(''2021.json'', [(''year'', Some ''2021'')])]
   \<and> take (nat 1) (yielded (fst (find_blobs out_ns (re_match out_year_json) None False None (- 1) out_bucket)))
       = [(''2021.json'', [(''year'', Some ''2021'')])]
   \<and> length (yielded (fst (find_blobs out_ns (re_match out_year_json) None False None 1 out_bucket)))
       \<le> nat 1"
proof -
  have a: "(0::int) < 1" and b: "(- 1::int) \<le> 0" by simp_all
  have v: "yielded (fst (find_blobs out_ns (re_match out_year_json) None False None 1 out_bucket))
       = [(''2021.json'', [(''year'', Some ''2021'')])]"
    by (simp add: find_eval)
  show ?thesis
    using a b v find_max_count_prefix [OF a b, of out_ns "re_match out_year_json" None False None out_bucket]
    by simp
qed

section \<open>find: progress reports\<close>

lemma loop_report_shape:
  assumes "fst (find_loop self fp base True ff mc nt nl nf blobs) = pre @ Report st # post"
  shows "st = create_progress_status (nl + int (length (yielded pre)))
               (nf + int (length (reports pre)) + 1 - int (length (yielded pre))) nt"
  using assms
proof (induction blobs arbitrary: nl nf pre)
  case Nil
  then show ?case by simp
next
  case (Cons blob blobs)
  let ?skip = "find_loop self fp base True ff mc nt nl (nf + 1) blobs"
  have skip: ?case
    if tr: "fst (find_loop self fp base True ff mc nt nl nf (blob # blobs))
            = Report (create_progress_status nl (nf + 1) nt) # fst ?skip"
  proof (cases pre)
    case Nil
    with Cons.prems tr show ?thesis by simp
  next
    case (Cons e pre')
    with Cons.prems tr have e: "e = Report (create_progress_status nl (nf + 1) nt)"
      and rest: "fst ?skip = pre' @ Report st # post" by simp_all
    from Cons.IH [OF rest] show ?thesis using Cons e by (simp add: algebra_simps)
  qed
  show ?case
  proof (cases "fp blob")
    case None
    then show ?thesis by (intro skip) (simp add: split_beta call_progress_def)
  next
    case (Some g)
    show ?thesis
    proof (cases "startswith blob base")
      case False
      then show ?thesis using Some by (intro skip) (simp add: split_beta call_progress_def)
    next
      case True
      show ?thesis
      proof (cases "item_filter ff g")
        case (Inl e)
        then show ?thesis using Some True Cons.prems by simp
      next
        case (Inr ok)
        show ?thesis
        proof (cases ok)
          case False
          then show ?thesis using Some True Inr by (intro skip) (simp add: split_beta call_progress_def)
        next
          case ok: True
          show ?thesis
          proof (cases "0 < mc \<and> mc \<le> nl + 1")
            case True
            then have "fst (find_loop self fp base True ff mc nt nl nf (blob # blobs)) = [Yield (blobname self blob) g]"
              using Some \<open>startswith blob base\<close> Inr ok by simp
            with Cons.prems show ?thesis by (cases pre) simp_all
          next
            case False
            let ?go = "find_loop self fp base True ff mc nt (nl + 1) nf blobs"
            have tr: "fst (find_loop self fp base True ff mc nt nl nf (blob # blobs))
                 = Yield (blobname self blob) g # Report (create_progress_status (nl + 1) nf nt) # fst ?go"
              using Some \<open>startswith blob base\<close> Inr ok False by (simp add: split_beta call_progress_def)
            show ?thesis
            proof (cases pre)
              case Nil
              with Cons.prems tr show ?thesis by simp
            next
              case c1: (Cons e pre')
              with Cons.prems tr have e: "e = Yield (blobname self blob) g"
                and r1: "Report (create_progress_status (nl + 1) nf nt) # fst ?go = pre' @ Report st # post"
                by simp_all
              show ?thesis
              proof (cases pre')
                case Nil
                with r1 c1 e show ?thesis by simp
              next
                case c2: (Cons e' pre'')
                with r1 have e': "e' = Report (create_progress_status (nl + 1) nf nt)"
                  and rest: "fst ?go = pre'' @ Report st # post" by simp_all
                from Cons.IH [OF rest] show ?thesis using c1 c2 e e' by (simp add: algebra_simps)
              qed
            qed
          qed
        qed
      qed
    qed
  qed
qed

lemma loop_report_count:
  assumes "mc \<le> 0 \<or> nl < mc"
  shows "length (reports (fst (find_loop self fp base True ff mc nt nl nf blobs))) \<le> length blobs
       \<and> (length (reports (fst (find_loop self fp base True ff mc nt nl nf blobs))) = length blobs
            \<longleftrightarrow> snd (find_loop self fp base True ff mc nt nl nf blobs) = None
                \<and> \<not> (0 < mc \<and> mc \<le> nl + int (length (yielded (fst (find_loop self fp base True ff mc nt nl nf blobs))))))"
  using assms
proof (induction blobs arbitrary: nl nf)
  case Nil
  then show ?case by auto
next
  case (Cons blob blobs)
  note skip = Cons.IH [of nl "nf + 1", OF Cons.prems]
  show ?case
  proof (cases "fp blob")
    case None
    then show ?thesis using skip by (simp add: split_beta call_progress_def)
  next
    case (Some g)
    show ?thesis
    proof (cases "startswith blob base")
      case False
      then show ?thesis using Some skip by (simp add: split_beta call_progress_def)
    next
      case True
      show ?thesis
      proof (cases "item_filter ff g")
        case (Inl e)
        then show ?thesis using Some True by simp
      next
        case (Inr ok)
        show ?thesis
        proof (cases ok)
          case False
          then show ?thesis using Some True Inr skip by (simp add: split_beta call_progress_def)
        next
          case ok: True
          show ?thesis
          proof (cases "0 < mc \<and> mc \<le> nl + 1")
            case True
            then show ?thesis using Some \<open>startswith blob base\<close> Inr ok by simp
          next
            case False
            with Cons.prems have inv: "mc \<le> 0 \<or> nl + 1 < mc" by auto
            show ?thesis
              using Some \<open>startswith blob base\<close> Inr ok False Cons.IH [of "nl + 1" nf, OF inv]
              by (simp add: split_beta call_progress_def add.assoc)
          qed
        qed
      qed
    qed
  qed
qed


lemma reports_find_blobs:
  assumes "list_blobs b (or_default base_dir []) = Inr cands"
  shows "reports (fst (find_blobs self fp base_dir pr ff mc b)) =
         reports (fst (find_loop self fp (or_default base_dir []) pr ff mc (int (length cands)) 0 0 cands))"
  by (simp add: find_blobs_listing [OF assms] Let_def reports_append split: option.splits)

lemma snd_find_blobs:
  assumes "list_blobs b (or_default base_dir []) = Inr cands"
  shows "snd (find_blobs self fp base_dir pr ff mc b) =
         snd (find_loop self fp (or_default base_dir []) pr ff mc (int (length cands)) 0 0 cands)"
  by (simp add: find_blobs_listing [OF assms] Let_def)

lemma step_raise:
  "decide fp base ff c = Inl e \<Longrightarrow>
   find_loop self fp base pr ff mc nt nl nf (c # cs) = ([], Some e)"
  by (auto simp: decide_def split: option.splits if_splits)

lemma step_filtered:
  "decide fp base ff c = Inr False \<Longrightarrow>
   find_loop self fp base pr ff mc nt nl nf (c # cs)
     = (call_progress pr nl (nf + 1) nt @ fst (find_loop self fp base pr ff mc nt nl (nf + 1) cs),
        snd (find_loop self fp base pr ff mc nt nl (nf + 1) cs))"
  by (auto simp: decide_def split_beta split: option.splits if_splits)

lemma step_break:
  "decide fp base ff c = Inr True \<Longrightarrow> 0 < mc \<and> mc \<le> nl + 1 \<Longrightarrow>
   find_loop self fp base pr ff mc nt nl nf (c # cs) = ([Yield (blobname self c) (the (fp c))], None)"
  by (auto simp: decide_def split: option.splits if_splits)

lemma step_loaded:
  "decide fp base ff c = Inr True \<Longrightarrow> \<not> (0 < mc \<and> mc \<le> nl + 1) \<Longrightarrow>
   find_loop self fp base pr ff mc nt nl nf (c # cs)
     = (Yield (blobname self c) (the (fp c)) # call_progress pr (nl + 1) nf nt
          @ fst (find_loop self fp base pr ff mc nt (nl + 1) nf cs),
        snd (find_loop self fp base pr ff mc nt (nl + 1) nf cs))"
  by (auto simp: decide_def split_beta split: option.splits if_splits)

lemma decide_cases:
  obtains e where "decide fp base ff c = Inl e"
  | "decide fp base ff c = Inr False"
  | "decide fp base ff c = Inr True"
  by (cases "decide fp base ff c") auto

lemma loaded_among_Cons:
  "loaded_among fp base ff (c # cs)
     = (if decide fp base ff c = Inr True then 1 else 0) + loaded_among fp base ff cs"
  by (simp add: loaded_among_def)

lemma loaded_among_Nil: "loaded_among fp base ff [] = 0"
  by (simp add: loaded_among_def)

lemma loop_report_count_prefix:
  assumes "mc \<le> 0 \<or> nl < mc" "k \<le> length blobs"
  shows "k \<le> length (reports (fst (find_loop self fp base True ff mc nt nl nf blobs)))
     \<longleftrightarrow> list_all (\<lambda>c. \<not> isl (decide fp base ff c)) (take k blobs)
         \<and> (mc \<le> 0 \<or> nl + loaded_among fp base ff (take k blobs) < mc)"
  using assms
proof (induction blobs arbitrary: nl nf k)
  case Nil
  then show ?case by (simp add: loaded_among_Nil)
next
  case (Cons c cs)
  show ?case
  proof (cases k)
    case 0
    with Cons.prems show ?thesis by (simp add: loaded_among_Nil)
  next
    case (Suc k')
    with Cons.prems have k': "k' \<le> length cs" by simp
    show ?thesis
    proof (cases rule: decide_cases [of fp base ff c])
      case (1 e)
      then show ?thesis using Suc by (simp add: step_raise del: find_loop.simps)
    next
      case 2
      show ?thesis
        using Cons.IH [of nl k' "nf + 1", OF Cons.prems(1) k'] 2 Suc
        by (simp add: step_filtered reports_append call_progress_def loaded_among_Cons del: find_loop.simps)
    next
      case 3
      show ?thesis
      proof (cases "0 < mc \<and> mc \<le> nl + 1")
        case True
        have "0 \<le> loaded_among fp base ff (take k' cs)" by (simp add: loaded_among_def)
        with True show ?thesis using 3 Suc by (simp add: step_break loaded_among_Cons del: find_loop.simps)
      next
        case False
        with Cons.prems have inv: "mc \<le> 0 \<or> nl + 1 < mc" by auto
        show ?thesis
          using Cons.IH [of "nl + 1" k' nf, OF inv k'] 3 Suc False
          by (simp add: step_loaded reports_append call_progress_def loaded_among_Cons add.assoc del: find_loop.simps)
      qed
    qed
  qed
qed

lemma loop_yields_before_report:
  assumes "fst (find_loop self fp base True ff mc nt nl nf blobs) = pre @ Report st # post"
  shows "int (length (yielded pre))
       = loaded_among fp base ff (take (length (reports pre) + 1) blobs)"
  using assms
proof (induction blobs arbitrary: nl nf pre)
  case Nil
  then show ?case by simp
next
  case (Cons c cs)
  show ?case
  proof (cases rule: decide_cases [of fp base ff c])
    case (1 e)
    with Cons.prems show ?thesis by (simp add: step_raise del: find_loop.simps)
  next
    case 2
    with Cons.prems
    have tr: "Report (create_progress_status nl (nf + 1) nt)
                # fst (find_loop self fp base True ff mc nt nl (nf + 1) cs) = pre @ Report st # post"
      by (simp add: step_filtered call_progress_def del: find_loop.simps)
    show ?thesis
    proof (cases pre)
      case Nil
      then show ?thesis using 2 by (simp add: loaded_among_Cons loaded_among_Nil)
    next
      case (Cons e pre')
      with tr have e: "e = Report (create_progress_status nl (nf + 1) nt)"
        and rest: "fst (find_loop self fp base True ff mc nt nl (nf + 1) cs) = pre' @ Report st # post"
        by simp_all
      from Cons.IH [OF rest] show ?thesis using Cons e 2 by (simp add: loaded_among_Cons)
    qed
  next
    case 3
    show ?thesis
    proof (cases "0 < mc \<and> mc \<le> nl + 1")
      case True
      with 3 Cons.prems have "[Yield (blobname self c) (the (fp c))] = pre @ Report st # post"
        by (simp add: step_break del: find_loop.simps)
      then show ?thesis by (cases pre) simp_all
    next
      case False
      with 3 Cons.prems
      have tr: "Yield (blobname self c) (the (fp c)) # Report (create_progress_status (nl + 1) nf nt)
                  # fst (find_loop self fp base True ff mc nt (nl + 1) nf cs) = pre @ Report st # post"
        by (simp add: step_loaded call_progress_def del: find_loop.simps)
      show ?thesis
      proof (cases pre)
        case Nil
        with tr show ?thesis by simp
      next
        case c1: (Cons e pre')
        with tr have e: "e = Yield (blobname self c) (the (fp c))"
          and r1: "Report (create_progress_status (nl + 1) nf nt)
                  # fst (find_loop self fp base True ff mc nt (nl + 1) nf cs) = pre' @ Report st # post"
          by simp_all
        show ?thesis
        proof (cases pre')
          case Nil
          with c1 e 3 show ?thesis by (simp add: loaded_among_Cons loaded_among_Nil)
        next
          case c2: (Cons e' pre'')
          with r1 have e': "e' = Report (create_progress_status (nl + 1) nf nt)"
            and rest: "fst (find_loop self fp base True ff mc nt (nl + 1) nf cs) = pre'' @ Report st # post"
            by simp_all
          from Cons.IH [OF rest] show ?thesis using c1 c2 e e' 3 by (simp add: loaded_among_Cons)
        qed
      qed
    qed
  qed
qed


lemma find_blobs_report_split:
  assumes l: "list_blobs b (or_default base_dir []) = Inr cands"
    and tr: "fst (find_blobs self fp base_dir pr ff mc b) = pre @ Report st # post"
  obtains pre' post' where "pre = Log LogInfo # pre'"
    and "fst (find_loop self fp (or_default base_dir []) pr ff mc (int (length cands)) 0 0 cands)
           = pre' @ Report st # post'"
proof -
  let ?res = "find_loop self fp (or_default base_dir []) pr ff mc (int (length cands)) 0 0 cands"
  let ?suff = "case snd ?res of None \<Rightarrow> [] | Some e \<Rightarrow> [Log (LogException e)]"
  have eq: "Log LogInfo # fst ?res @ ?suff = pre @ Report st # post"
    using tr by (simp add: find_blobs_listing [OF l] Let_def)
  then obtain pre' where pre: "pre = Log LogInfo # pre'"
    and eq': "fst ?res @ ?suff = pre' @ Report st # post"
    by (cases pre) auto
  have "\<exists>post'. fst ?res = pre' @ Report st # post'"
  proof (cases "snd ?res")
    case None
    with eq' show ?thesis by simp
  next
    case (Some e)
    with eq' have e: "fst ?res @ [Log (LogException e)] = pre' @ Report st # post" by simp
    show ?thesis
    proof (cases post rule: rev_cases)
      case Nil
      with e show ?thesis by simp
    next
      case (snoc post' l)
      with e have "fst ?res @ [Log (LogException e)] = (pre' @ Report st # post') @ [l]" by simp
      then have "fst ?res = pre' @ Report st # post'" by (simp only: append1_eq_conv)
      then show ?thesis by blast
    qed
  qed
  then obtain post' where "fst ?res = pre' @ Report st # post'" by blast
  with pre show ?thesis by (rule that)
qed

text \<open>
  C4, as amended. In a \<^verbatim>\<open>find\<close> with a progress callback, over the candidate listing
  \<open>cands\<close>: a status is passed to the callback after each candidate that is evaluated,
  except the candidate whose yield reaches a positive \<open>max_count\<close> and a candidate on which
  the field filter raises, where the run ends. That is, there are at least \<open>k\<close> statuses
  exactly when the loop runs through the first \<open>k\<close> candidates. The \<open>k\<close>-th status comes
  after the yield of the \<open>k\<close>-th candidate, if it has one: the pairs yielded before it are
  those of the first \<open>k\<close> candidates; it has \<open>completed_items\<close> equal to matched plus
  filtered, which is \<open>k\<close>, with matched the number of pairs yielded so far, and
  \<open>total_items\<close> equal to the size of the listing. The callback is called at most once
  per candidate, and once for every candidate exactly when the run ends without an
  exception and without reaching a positive \<open>max_count\<close>.
\<close>

theorem find_progress_reports:
  assumes "list_blobs b (or_default base_dir []) = Inr cands"
  shows "(\<forall>k \<le> length cands.
            k \<le> length (reports (fst (find_blobs self fp base_dir True ff mc b)))
            \<longleftrightarrow> runs_through fp (or_default base_dir []) ff mc (take k cands))
       \<and> (\<forall>pre st post.
            fst (find_blobs self fp base_dir True ff mc b) = pre @ Report st # post \<longrightarrow>
            int (length (yielded pre))
              = loaded_among fp (or_default base_dir []) ff (take (length (reports pre) + 1) cands)
            \<and> st = create_progress_status (int (length (yielded pre)))
                   (int (length (reports pre)) + 1 - int (length (yielded pre)))
                   (int (length cands)))
       \<and> length (reports (fst (find_blobs self fp base_dir True ff mc b))) \<le> length cands
       \<and> (length (reports (fst (find_blobs self fp base_dir True ff mc b))) = length cands
            \<longleftrightarrow> snd (find_blobs self fp base_dir True ff mc b) = None
                \<and> \<not> (0 < mc \<and> mc \<le> int (length (yielded (fst (find_blobs self fp base_dir True ff mc b))))))"
proof -
  let ?base = "or_default base_dir []"
  have inv: "mc \<le> 0 \<or> 0 < mc" by auto
  have y: "yielded (fst (find_blobs self fp base_dir True ff mc b)) =
           yielded (fst (find_loop self fp ?base True ff mc (int (length cands)) 0 0 cands))"
    using assms by (simp add: yielded_find_blobs)
  have cnt: "k \<le> length (reports (fst (find_blobs self fp base_dir True ff mc b)))
            \<longleftrightarrow> runs_through fp ?base ff mc (take k cands)" if "k \<le> length cands" for k
    using loop_report_count_prefix [OF inv that, of self fp ?base ff "int (length cands)" 0]
    by (simp add: reports_find_blobs [OF assms] runs_through_def)
  have shape: "int (length (yielded pre))
              = loaded_among fp ?base ff (take (length (reports pre) + 1) cands)
            \<and> st = create_progress_status (int (length (yielded pre)))
                   (int (length (reports pre)) + 1 - int (length (yielded pre)))
                   (int (length cands))"
    if tr: "fst (find_blobs self fp base_dir True ff mc b) = pre @ Report st # post" for pre st post
  proof -
    from find_blobs_report_split [OF assms tr]
    obtain pre' post' where pre: "pre = Log LogInfo # pre'"
      and l: "fst (find_loop self fp ?base True ff mc (int (length cands)) 0 0 cands)
           = pre' @ Report st # post'" by blast
    from loop_yields_before_report [OF l] loop_report_shape [OF l] pre
    show ?thesis by simp
  qed
  have tot: "length (reports (fst (find_blobs self fp base_dir True ff mc b))) \<le> length cands
       \<and> (length (reports (fst (find_blobs self fp base_dir True ff mc b))) = length cands
            \<longleftrightarrow> snd (find_blobs self fp base_dir True ff mc b) = None
                \<and> \<not> (0 < mc \<and> mc \<le> int (length (yielded (fst (find_blobs self fp base_dir True ff mc b))))))"
    using loop_report_count [OF inv, of self fp ?base ff "int (length cands)" 0 cands]
    unfolding reports_find_blobs [OF assms] snd_find_blobs [OF assms] y
    by simp
  show ?thesis
  proof (intro conjI allI impI)
    fix k assume "k \<le> length cands"
    then show "k \<le> length (reports (fst (find_blobs self fp base_dir True ff mc b)))
            \<longleftrightarrow> runs_through fp ?base ff mc (take k cands)" by (rule cnt)
  next
    fix pre st post
    assume tr: "fst (find_blobs self fp base_dir True ff mc b) = pre @ Report st # post"
    from shape [OF tr] show "int (length (yielded pre))
              = loaded_among fp ?base ff (take (length (reports pre) + 1) cands)" by simp
    from shape [OF tr] show "st = create_progress_status (int (length (yielded pre)))
                   (int (length (reports pre)) + 1 - int (length (yielded pre)))
                   (int (length cands))" by simp
  next
    from tot show "length (reports (fst (find_blobs self fp base_dir True ff mc b))) \<le> length cands"
      by simp
  next
    from tot show "(length (reports (fst (find_blobs self fp base_dir True ff mc b))) = length cands)
            = (snd (find_blobs self fp base_dir True ff mc b) = None
                \<and> \<not> (0 < mc \<and> mc \<le> int (length (yielded (fst (find_blobs self fp base_dir True ff mc b))))))"
      by simp
  qed
qed

theorem find_progress_reports_witness:
  "list_blobs out_bucket (or_default None []) = Inr [''out/2021.json'', ''out/2022.json'', ''out/notes.txt'']
   \<and> reports (fst (find_blobs out_ns (re_match out_year_json) None True None (- 1) out_bucket))
       = [\<lparr>total_items = 3, completed_items = 1, description = ''1 files loaded (0 filtered)''\<rparr>,
          \<lparr>total_items = 3, completed_items = 2, description = ''2 files loaded (0 filtered)''\<rparr>,
          \<lparr>total_items = 3, completed_items = 3, description = ''2 files loaded (1 filtered)''\<rparr>]
   \<and> snd (find_blobs out_ns (re_match out_year_json) None True None (- 1) out_bucket) = None
   \<and> runs_through (re_match out_year_json) (or_default None []) None 2
        (take 1 [''out/2021.json'', ''out/2022.json'', ''out/notes.txt''])
   \<and> 1 \<le> length (reports (fst (find_blobs out_ns (re_match out_year_json) None True None 2 out_bucket)))
   \<and> find_blobs out_ns (re_match out_year_json) None True None 2 out_bucket
       = ([Log LogInfo,
           Yield ''2021.json'' [(''year'', Some ''2021'')],
           Report \<lparr>total_items = 3, completed_items = 1, description = ''1 files loaded (0 filtered)''\<rparr>,
           Yield ''2022.json'' [(''year'', Some ''2022'')]], None)"
proof -
  let ?cands = "[''out/2021.json'', ''out/2022.json'', ''out/notes.txt'']"
  have h: "list_blobs out_bucket (or_default None []) = Inr ?cands"
    by (simp add: find_eval)
  have r: "reports (fst (find_blobs out_ns (re_match out_year_json) None True None (- 1) out_bucket))
       = [\<lparr>total_items = 3, completed_items = 1, description = ''1 files loaded (0 filtered)''\<rparr>,
          \<lparr>total_items = 3, completed_items = 2, description = ''2 files loaded (0 filtered)''\<rparr>,
          \<lparr>total_items = 3, completed_items = 3, description = ''2 files loaded (1 filtered)''\<rparr>]"
    by (simp add: find_eval)
  have s: "snd (find_blobs out_ns (re_match out_year_json) None True None (- 1) out_bucket) = None"
    by (simp add: find_eval)
  have k: "(1::nat) \<le> length ?cands" by simp
  have rt: "runs_through (re_match out_year_json) (or_default None []) None 2 (take 1 ?cands)"
    by (simp add: runs_through_def loaded_among_def decide_def find_eval)
  note t = find_progress_reports [OF h, where self = out_ns and fp = "re_match out_year_json"
      and ff = None and mc = 2, THEN conjunct1, THEN spec [of _ 1], THEN mp, OF k]
  have one: "1 \<le> length (reports (fst (find_blobs out_ns (re_match out_year_json) None True None 2 out_bucket)))"
    by (rule iffD2 [OF t rt])
  have f: "find_blobs out_ns (re_match out_year_json) None True None 2 out_bucket
       = ([Log LogInfo,
           Yield ''2021.json'' [(''year'', Some ''2021'')],
           Report \<lparr>total_items = 3, completed_items = 1, description = ''1 files loaded (0 filtered)''\<rparr>,
           Yield ''2022.json'' [(''year'', Some ''2022'')]], None)"
    by (simp add: find_eval)
  show ?thesis using h r s rt one f by - (intro conjI; assumption)
qed

text \<open>
  The claim as stated fails when \<open>max_count\<close> is reached: with \<open>max_count = 1\<close> the first
  candidate is evaluated and yielded, and no status is emitted for it.
\<close>

theorem find_progress_reports_counterexample:
  "find_blobs out_ns (re_match out_year_json) None True None 1 out_bucket
     = ([Log LogInfo, Yield ''2021.json'' [(''year'', Some ''2021'')]], None)"
  by (simp add: find_eval)

section \<open>find: the field filter\<close>









section \<open>find: the example\<close>

text \<open>
  C2, as amended. On the namespace with root \<open>out\<close> and the candidate listing
  \<open>out/2021.json\<close>, \<open>out/2022.json\<close>, \<open>out/notes.txt\<close>, \<^verbatim>\<open>find\<close> with the pattern
  \<^verbatim>\<open>(?P<year>\d{4})\.json$\<close> yields nothing: the pattern is matched from the start of the
  address, which begins with \<open>out/\<close>, although it does match the keys \<open>2021.json\<close> and
  \<open>2022.json\<close>. With the pattern \<^verbatim>\<open>out/(?P<year>\d{4})\.json$\<close>, \<^verbatim>\<open>find\<close> yields the two pairs
  of the example, in that order.
\<close>

theorem find_year_example:
  "list_blobs out_bucket (or_default None [])
     = Inr [''out/2021.json'', ''out/2022.json'', ''out/notes.txt'']
   \<and> find_blobs out_ns (re_match year_json) None False None (- 1) out_bucket = ([Log LogInfo], None)
   \<and> re_match year_json ''out/2021.json'' = None
   \<and> re_match year_json ''2021.json'' = Some [(''year'', Some ''2021'')]
   \<and> yielded (fst (find_blobs out_ns (re_match out_year_json) None False None (- 1) out_bucket))
       = [(''2021.json'', [(''year'', Some ''2021'')]), (''2022.json'', [(''year'', Some ''2022'')])]
   \<and> snd (find_blobs out_ns (re_match out_year_json) None False None (- 1) out_bucket) = None"
  by (simp add: find_eval)

text \<open>The claim as stated fails: the run with the pattern of the example yields no pair.\<close>

theorem find_year_example_counterexample:
  "yielded (fst (find_blobs out_ns (re_match year_json) None False None (- 1) out_bucket))
     \<noteq> [(''2021.json'', [(''year'', Some ''2021'')]), (''2022.json'', [(''year'', Some ''2022'')])]"
  by (simp add: find_eval)

section \<open>find: the base directory\<close>

lemma loop_yields_match:
  assumes "mc \<le> 0" "c \<in> set blobs" "fp c = Some g" "startswith c base"
  shows "(blobname self c, g) \<in> set (yielded (fst (find_loop self fp base pr None mc nt nl nf blobs)))"
  using assms(2)
proof (induction blobs arbitrary: nl nf)
  case Nil
  then show ?case by simp
next
  case (Cons blob blobs)
  show ?case
  proof (cases "c = blob")
    case True
    then show ?thesis
      using assms(1,3,4) by (simp add: item_filter_def split_beta)
  next
    case False
    with Cons.prems have c: "c \<in> set blobs" by simp
    show ?thesis
      using Cons.IH [OF c] assms(1)
      by (auto simp: item_filter_def split_beta yielded_append yielded_call_progress
               split: option.splits)
  qed
qed

text \<open>
  C9. With \<open>base_dir\<close> omitted, \<^verbatim>\<open>find\<close> lists the bucket with the empty prefix, which
  returns every object, and runs the loop over all of them with the empty base directory,
  whatever the namespace's own prefix is. So every object that the pattern matches is
  yielded by a run without filter and with a non-positive \<open>max_count\<close>, also an object
  whose name does not start with the namespace's prefix; such an object is yielded under
  its own name, less one leading slash.
\<close>

theorem find_without_base_dir:
  assumes "reachable b"
  shows "list_blobs b (or_default None []) = Inr (map fst (objects b))
       \<and> find_blobs self fp None pr ff mc b =
           (let res = find_loop self fp [] pr ff mc (int (length (objects b))) 0 0 (map fst (objects b))
            in (Log LogInfo # fst res @ (case snd res of None \<Rightarrow> [] | Some e \<Rightarrow> [Log (LogException e)]),
                snd res))
       \<and> (\<forall>n \<in> fst ` set (objects b). \<forall>g. mc \<le> 0 \<and> fp n = Some g \<longrightarrow>
             (blobname self n, g) \<in> set (yielded (fst (find_blobs self fp None pr None mc b))))
       \<and> (\<forall>n. \<not> startswith n (path_prefix self) \<longrightarrow>
             blobname self n = (if startswith n ''/'' then drop 1 n else n))"
proof -
  have l: "list_blobs b (or_default None []) = Inr (map fst (objects b))"
    using assms by (simp add: list_blobs_def or_default_def startswith_def)
  have f: "find_blobs self fp None pr ff mc b =
           (let res = find_loop self fp [] pr ff mc (int (length (objects b))) 0 0 (map fst (objects b))
            in (Log LogInfo # fst res @ (case snd res of None \<Rightarrow> [] | Some e \<Rightarrow> [Log (LogException e)]),
                snd res))"
    using find_blobs_listing [OF l, of self fp pr ff mc] by (simp add: or_default_def)
  have y: "(blobname self n, g) \<in> set (yielded (fst (find_blobs self fp None pr None mc b)))"
    if "n \<in> fst ` set (objects b)" "mc \<le> 0" "fp n = Some g" for n g
  proof -
    have "n \<in> set (map fst (objects b))" using that(1) by simp
    then have "(blobname self n, g) \<in> set (yielded (fst (find_loop self fp [] pr None mc
           (int (length (objects b))) 0 0 (map fst (objects b)))))"
      using that(2,3) by (intro loop_yields_match) (simp_all add: startswith_def)
    then show ?thesis using l by (simp add: yielded_find_blobs or_default_def)
  qed
  have o: "blobname self n = (if startswith n ''/'' then drop 1 n else n)"
    if "\<not> startswith n (path_prefix self)" for n
    using that by (simp add: blobname_def)
  from l f y o show ?thesis by blast
qed

theorem find_without_base_dir_witness:
  "reachable \<lparr>objects = [(''other/x'', ''d''), (''out/a'', ''e'')], reachable = True\<rparr>
   \<and> path_prefix out_ns = ''out''
   \<and> \<not> startswith ''other/x'' (path_prefix out_ns)
   \<and> (blobname out_ns ''other/x'', [])
        \<in> set (yielded (fst (find_blobs out_ns (re_match (lits ''other/x'')) None False None (- 1)
               \<lparr>objects = [(''other/x'', ''d''), (''out/a'', ''e'')], reachable = True\<rparr>)))
   \<and> yielded (fst (find_blobs out_ns (re_match (lits ''other/x'')) None False None (- 1)
               \<lparr>objects = [(''other/x'', ''d''), (''out/a'', ''e'')], reachable = True\<rparr>))
       = [(''other/x'', [])]"
proof -
  let ?b = "\<lparr>objects = [(''other/x'', ''d''), (''out/a'', ''e'')], reachable = True\<rparr>"
  have h: "reachable ?b" by simp
  have n: "''other/x'' \<in> fst ` set (objects ?b)" by simp
  have m: "(- 1::int) \<le> 0 \<and> re_match (lits ''other/x'') ''other/x'' = Some []"
    by (simp add: re_match_def)
  note t = find_without_base_dir [OF h, where self = out_ns and fp = "re_match (lits ''other/x'')"
      and pr = False and ff = None and mc = "- 1",
      THEN conjunct2, THEN conjunct2, THEN conjunct1, THEN bspec, OF n,
      THEN spec [of _ "[]"], THEN mp, OF m]
  have p1: "path_prefix out_ns = ''out''"
    and p2: "\<not> startswith ''other/x'' (path_prefix out_ns)"
    by (simp_all add: out_ns_def startswith_def)
  have y: "yielded (fst (find_blobs out_ns (re_match (lits ''other/x'')) None False None (- 1) ?b))
       = [(''other/x'', [])]"
    by (simp add: find_eval)
  show ?thesis using h p1 p2 t y by - (intro conjI; assumption)
qed

section \<open>clear\<close>

lemma blob_delete_present:
  assumes "reachable b" "n \<in> fst ` set (objects b)"
  shows "blob_delete b n = Inr (b\<lparr>objects := filter (\<lambda>(k, d). k \<noteq> n) (objects b)\<rparr>)"
proof -
  from assms(2) obtain d where "map_of (objects b) n = Some d"
    by (cases "map_of (objects b) n") (auto simp: map_of_eq_None_iff)
  moreover have "AList.delete n (objects b) = filter (\<lambda>(k, d). k \<noteq> n) (objects b)"
    by (auto simp: AList.delete_eq intro: filter_cong)
  ultimately show ?thesis using assms(1) by (simp add: blob_delete_def)
qed

lemma clear_loop_deletes:
  assumes "reachable b" "distinct ns" "set ns \<subseteq> fst ` set (objects b)"
  shows "clear_loop b ns = (None, b\<lparr>objects := filter (\<lambda>(n, d). n \<notin> set ns) (objects b)\<rparr>)"
  using assms
proof (induction ns arbitrary: b)
  case Nil
  then show ?case by simp
next
  case (Cons n ns)
  let ?b' = "b\<lparr>objects := filter (\<lambda>(k, d). k \<noteq> n) (objects b)\<rparr>"
  have del: "blob_delete b n = Inr ?b'"
    using Cons.prems by (intro blob_delete_present) auto
  have r: "reachable ?b'" using Cons.prems by simp
  have d: "distinct ns" using Cons.prems by simp
  have s: "set ns \<subseteq> fst ` set (objects ?b')"
    using Cons.prems by force
  have "filter (\<lambda>(m, d). m \<notin> set ns) (filter (\<lambda>(k, d). k \<noteq> n) (objects b))
      = filter (\<lambda>(m, d). m \<notin> set (n # ns)) (objects b)"
    by (auto intro: filter_cong)
  then show ?case
    using Cons.IH [OF r d s] del by simp
qed

lemma map_of_filter_fst:
  "map_of (filter (\<lambda>(n, d). Q n) xs) k = (if Q k then map_of xs k else None)"
  by (induction xs) auto

lemma prefixes_comparable:
  "startswith n p \<Longrightarrow> startswith n q \<Longrightarrow> startswith p q \<or> startswith q p"
  unfolding startswith_def using prefix_same_cases by blast

text \<open>
  C5, as amended. On a reachable bucket, \<^verbatim>\<open>clear\<close> deletes exactly the objects whose name
  starts, as a string, with the namespace's prefix, and leaves every other object as it
  was. The objects under the prefix of another namespace are left as they were when
  neither prefix is a string prefix of the other.
\<close>

theorem clear_removes_prefix:
  assumes "reachable b" "distinct (map fst (objects b))"
  shows "clear self b
           = (None, b\<lparr>objects := filter (\<lambda>(n, d). \<not> startswith n (path_prefix self)) (objects b)\<rparr>)
       \<and> (\<forall>n. map_of (objects (snd (clear self b))) n
               = (if startswith n (path_prefix self) then None else map_of (objects b) n))
       \<and> (\<forall>(other::namespace) n. \<not> startswith (path_prefix other) (path_prefix self)
               \<and> \<not> startswith (path_prefix self) (path_prefix other)
               \<and> startswith n (path_prefix other)
             \<longrightarrow> map_of (objects (snd (clear self b))) n = map_of (objects b) n)"
proof -
  let ?p = "path_prefix self"
  let ?ns = "filter (\<lambda>n. startswith n ?p) (map fst (objects b))"
  have l: "list_blobs b ?p = Inr ?ns" using assms(1) by (simp add: list_blobs_def)
  have d: "distinct ?ns" using assms(2) by simp
  have s: "set ?ns \<subseteq> fst ` set (objects b)" by auto
  have "filter (\<lambda>(n, d). n \<notin> set ?ns) (objects b)
      = filter (\<lambda>(n, d). \<not> startswith n ?p) (objects b)"
    by (rule filter_cong) force+
  then have c: "clear self b
           = (None, b\<lparr>objects := filter (\<lambda>(n, d). \<not> startswith n ?p) (objects b)\<rparr>)"
    using clear_loop_deletes [OF assms(1) d s] l by (simp add: clear_def)
  have m: "map_of (objects (snd (clear self b))) n
               = (if startswith n ?p then None else map_of (objects b) n)" for n
    by (simp add: c map_of_filter_fst)
  have o: "map_of (objects (snd (clear self b))) n = map_of (objects b) n"
    if "\<not> startswith (path_prefix other) ?p" "\<not> startswith ?p (path_prefix other)"
       "startswith n (path_prefix other)" for other :: namespace and n
  proof -
    have "\<not> startswith n ?p"
      using that prefixes_comparable [of n ?p "path_prefix other"] by blast
    then show ?thesis by (simp add: m)
  qed
  show ?thesis
  proof (intro conjI allI impI)
    show "clear self b
           = (None, b\<lparr>objects := filter (\<lambda>(n, d). \<not> startswith n ?p) (objects b)\<rparr>)"
      by (rule c)
  next
    fix n
    show "map_of (objects (snd (clear self b))) n
               = (if startswith n ?p then None else map_of (objects b) n)"
      by (rule m)
  next
    fix other :: namespace and n
    assume "\<not> startswith (path_prefix other) ?p
               \<and> \<not> startswith ?p (path_prefix other)
               \<and> startswith n (path_prefix other)"
    then show "map_of (objects (snd (clear self b))) n = map_of (objects b) n"
      using o [of other n] by simp
  qed
qed

theorem clear_removes_prefix_witness:
  "reachable \<lparr>objects = [(''out/a'', ''x''), (''other/b'', ''y'')], reachable = True\<rparr>
   \<and> distinct (map fst (objects \<lparr>objects = [(''out/a'', ''x''), (''other/b'', ''y'')], reachable = True\<rparr>))
   \<and> clear out_ns \<lparr>objects = [(''out/a'', ''x''), (''other/b'', ''y'')], reachable = True\<rparr>
       = (None, \<lparr>objects = [(''other/b'', ''y'')], reachable = True\<rparr>)"
proof -
  let ?b = "\<lparr>objects = [(''out/a'', ''x''), (''other/b'', ''y'')], reachable = True\<rparr>"
  have h: "reachable ?b" by simp
  have d: "distinct (map fst (objects ?b))" by simp
  note t = clear_removes_prefix [OF h d, where self = out_ns, THEN conjunct1]
  have "clear out_ns ?b = (None, \<lparr>objects = [(''other/b'', ''y'')], reachable = True\<rparr>)"
    using t by (simp add: out_ns_def startswith_def)
  with h d show ?thesis by - (intro conjI; assumption)
qed

text \<open>
  The claim as stated fails for the sibling prefixes \<open>out\<close> and \<open>out2\<close>: \<^verbatim>\<open>clear\<close> on the
  first also deletes the object that the second stores under the key \<open>b\<close>.
\<close>

theorem clear_removes_prefix_counterexample:
  "keyname (out_ns\<lparr>path_prefix := ''out2''\<rparr>) ''b'' = ''out2/b''
   \<and> path_prefix out_ns \<noteq> ''out2''
   \<and> clear out_ns \<lparr>objects = [(''out/a'', ''x''), (''out2/b'', ''y'')], reachable = True\<rparr>
       = (None, \<lparr>objects = [], reachable = True\<rparr>)"
  by (simp add: path_eval clear_def list_blobs_def blob_delete_def)

section \<open>Errors of the backend\<close>

text \<open>
  C6. When the write of \<^verbatim>\<open>set\<close> fails, the handler's logging call cannot format its
  message. Under a logging configuration that lets the error of formatting through,
  \<^verbatim>\<open>TypeError\<close> escapes from \<^verbatim>\<open>set\<close>; under the handlers of the standard library \<^verbatim>\<open>set\<close>
  returns normally, and the record of the failure is not written. In both cases the bucket
  is left as it was, and a \<^verbatim>\<open>set\<close> whose body succeeds returns normally. \<^verbatim>\<open>find\<close> on a
  bucket whose listing fails logs the exception and raises it again, with nothing yielded.
\<close>

theorem set_logging_error_escapes:
  "set_value encode Raising self key (Bytes d) enc (b\<lparr>reachable := False\<rparr>)
     = (Inl TypeError, [], b\<lparr>reachable := False\<rparr>)
   \<and> set_value encode Swallowing self key (Bytes d) enc (b\<lparr>reachable := False\<rparr>)
       = (Inr (), [LogFormatError], b\<lparr>reachable := False\<rparr>)
   \<and> fst (set_value encode handler self key val enc b)
       = (case set_try encode self key val enc b of
            Inl e \<Rightarrow> (case handler of Swallowing \<Rightarrow> Inr () | Raising \<Rightarrow> Inl TypeError)
          | Inr b' \<Rightarrow> Inr ())
   \<and> find_blobs self fp base_dir pr ff mc (b\<lparr>reachable := False\<rparr>)
       = ([Log LogInfo, Log (LogException ServiceUnavailable)], Some ServiceUnavailable)
   \<and> set_value py_encode Raising out_ns ''k'' (Bytes ''new'') None
         \<lparr>objects = [(''out/k'', ''old'')], reachable = False\<rparr>
       = (Inl TypeError, [], \<lparr>objects = [(''out/k'', ''old'')], reachable = False\<rparr>)"
proof (intro conjI)
  show "set_value encode Raising self key (Bytes d) enc (b\<lparr>reachable := False\<rparr>)
     = (Inl TypeError, [], b\<lparr>reachable := False\<rparr>)"
    by (simp add: set_value_def set_try_def upload_from_string_def)
next
  show "set_value encode Swallowing self key (Bytes d) enc (b\<lparr>reachable := False\<rparr>)
       = (Inr (), [LogFormatError], b\<lparr>reachable := False\<rparr>)"
    by (simp add: set_value_def set_try_def upload_from_string_def)
next
  show "fst (set_value encode handler self key val enc b)
       = (case set_try encode self key val enc b of
            Inl e \<Rightarrow> (case handler of Swallowing \<Rightarrow> Inr () | Raising \<Rightarrow> Inl TypeError)
          | Inr b' \<Rightarrow> Inr ())"
    by (simp add: set_value_def split: sum.splits log_handler.splits)
next
  have "list_blobs (b\<lparr>reachable := False\<rparr>) (or_default base_dir []) = Inl ServiceUnavailable"
    by (simp add: list_blobs_def)
  then show "find_blobs self fp base_dir pr ff mc (b\<lparr>reachable := False\<rparr>)
       = ([Log LogInfo, Log (LogException ServiceUnavailable)], Some ServiceUnavailable)"
    by (rule find_blobs_listing_fails)
next
  show "set_value py_encode Raising out_ns ''k'' (Bytes ''new'') None
         \<lparr>objects = [(''out/k'', ''old'')], reachable = False\<rparr>
       = (Inl TypeError, [], \<lparr>objects = [(''out/k'', ''old'')], reachable = False\<rparr>)"
    by (simp add: set_value_def set_try_def upload_from_string_def)
qed

section \<open>The encoding of get\<close>

text \<open>
  C7. \<^verbatim>\<open>get\<close> never reads the encoding of the namespace: without an explicit encoding it
  decodes with \<open>utf-8\<close>. On the namespace built with the encoding \<open>latin-1\<close>, the stored
  byte \<open>0xE9\<close> is the text of the one code point 233 in the namespace's encoding, and
  \<^verbatim>\<open>get\<close> returns \<^verbatim>\<open>None\<close> after a \<^verbatim>\<open>UnicodeDecodeError\<close>; with the encoding passed
  explicitly it returns the text.
\<close>

theorem get_ignores_namespace_encoding:
  "(\<forall>e. get decode (self\<lparr>encoding := e\<rparr>) key as_bytes enc b = get decode self key as_bytes enc b)
   \<and> init (Some ''key.json'') ''bucket'' (Some ''latin-1'') (Some ''out'')
       = Inr (out_ns\<lparr>encoding := ''latin-1''\<rparr>)
   \<and> py_decode (encoding (out_ns\<lparr>encoding := ''latin-1''\<rparr>)) [CHR 0xE9] = Inr [233]
   \<and> get py_decode (out_ns\<lparr>encoding := ''latin-1''\<rparr>) ''k'' False None
         \<lparr>objects = [(''out/k'', [CHR 0xE9])], reachable = True\<rparr>
       = (None, [LogException UnicodeDecodeError])
   \<and> get py_decode (out_ns\<lparr>encoding := ''latin-1''\<rparr>) ''k'' False (Some ''latin-1'')
         \<lparr>objects = [(''out/k'', [CHR 0xE9])], reachable = True\<rparr>
       = (Some (Text [233]), [])"
proof (intro conjI allI)
  fix e
  show "get decode (self\<lparr>encoding := e\<rparr>) key as_bytes enc b = get decode self key as_bytes enc b"
    by (simp add: get_def get_try_def keyname_def)
next
  show "init (Some ''key.json'') ''bucket'' (Some ''latin-1'') (Some ''out'')
       = Inr (out_ns\<lparr>encoding := ''latin-1''\<rparr>)"
    by (simp add: init_def or_default_def out_ns_def)
next
  show "py_decode (encoding (out_ns\<lparr>encoding := ''latin-1''\<rparr>)) [CHR 0xE9] = Inr [233]"
    by (simp add: py_decode_def)
next
  show "get py_decode (out_ns\<lparr>encoding := ''latin-1''\<rparr>) ''k'' False None
         \<lparr>objects = [(''out/k'', [CHR 0xE9])], reachable = True\<rparr>
       = (None, [LogException UnicodeDecodeError])"
    by (simp add: get_def get_try_def download_as_bytes_def or_default_def py_decode_def path_eval)
next
  show "get py_decode (out_ns\<lparr>encoding := ''latin-1''\<rparr>) ''k'' False (Some ''latin-1'')
         \<lparr>objects = [(''out/k'', [CHR 0xE9])], reachable = True\<rparr>
       = (Some (Text [233]), [])"
    by (simp add: get_def get_try_def download_as_bytes_def or_default_def py_decode_def path_eval)
qed

end
